theory Spec2Isabelle
  imports Complex_Main "HOL-Library.Word" "HOL-Library.Log_Nat"
begin

unbundle bit_operations_syntax

section \<open>Data model\<close>

text \<open>
  The save file is a \<open>bytearray\<close>: a list of bytes. A skill is the dictionary built by
  \<open>load_config\<close> with the keys \<open>id\<close>, \<open>name\<close>, \<open>desc\<close>, \<open>value\<close> and \<open>bit\<close>; the loader
  always stores the id under \<open>bit\<close> as well, so \<open>skill_bit\<close> is a function of the record.
  Skill ids are bit positions and are modelled as natural numbers; skill values are
  Python integers. The rates of the configuration and the attribute values computed from
  them are Python floats, that is IEEE 754 double-precision numbers. A double is
  modelled as the rational number it denotes, and every arithmetic operation on
  doubles rounds its exact result to 53 significant bits, to nearest with ties to even
  (section ``Double-precision arithmetic'').
\<close>

type_synonym byte = "8 word"

record skill =
  skill_id :: nat
  skill_name :: string
  skill_desc :: string
  skill_value :: int

definition skill_bit :: "skill \<Rightarrow> nat" where
  "skill_bit s = skill_id s"

record config =
  marshal_skills :: "skill list"
  commander_skills :: "skill list"
  personal_skills :: "skill list"
  debug_mode :: bool
  pick_limit :: int
  reroll_limit :: int
  extra_attribute :: int
  str_rate :: rat
  int_rate :: rat
  random_extra_attribute_min :: int
  random_extra_attribute_max :: int
  str_random_rate :: rat
  int_random_rate :: rat
  attribute_thresholds :: "rat list"
  attribute_rates :: "rat list"
  exist_attribute_rate :: rat
  last_character_number :: int

text \<open>
  Every exception raised inside \<open>process_save_file\<close> is caught by its outer handler,
  which returns \<open>False\<close> before the output file is opened; the two explicit
  \<open>return False\<close> statements do the same.
\<close>

datatype failure =
    CharacterOneNotFound
  | StatsReadFailed
  | StructError
  | ValueError
  | IndexError

section \<open>Byte-level helpers\<close>

text \<open>Python's \<open>xs[a:b]\<close> for non-negative bounds: clamped at the end, empty when \<open>b \<le> a\<close>.\<close>

definition py_slice :: "'a list \<Rightarrow> nat \<Rightarrow> nat \<Rightarrow> 'a list" where
  "py_slice xs a b = take (b - a) (drop a xs)"

text \<open>\<open>struct.unpack('<i', bs)[0]\<close>: exactly four bytes, little endian, two's complement.\<close>

definition unpack_le_i32 :: "byte list \<Rightarrow> failure + int" where
  "unpack_le_i32 bs =
     (case bs of
        [b0, b1, b2, b3] \<Rightarrow>
          Inr (sint (word_of_int
                 (uint b0 + 256 * uint b1 + 65536 * uint b2 + 16777216 * uint b3) :: 32 word))
      | _ \<Rightarrow> Inl StructError)"

text \<open>\<open>struct.pack('<i', n)[:2]\<close>: the two low bytes of \<open>n\<close>.\<close>

definition char_id_bytes :: "int \<Rightarrow> byte list" where
  "char_id_bytes n = [word_of_int n, word_of_int (n div 256)]"

definition mark5 :: "byte list" where
  "mark5 = [0x4D, 0x61, 0x72, 0x6B, 0x00]"

definition mark9 :: "byte list" where
  "mark9 = [0x4D, 0x61, 0x72, 0x6B, 0x00, 0x00, 0x00, 0x00, 0x00]"

section \<open>Signature scanner\<close>

text \<open>
  \<open>for i in range(lo, hi): if not P(i): continue; ...; break\<close> yields the first
  position of the range that passes the test.
\<close>

definition first_in_range :: "(nat \<Rightarrow> bool) \<Rightarrow> nat \<Rightarrow> nat \<Rightarrow> nat option" where
  "first_in_range P lo hi = List.find P [lo..<hi]"

text \<open>The body of the regular search loop: each failed check is a \<open>continue\<close>.\<close>

definition strict_match :: "byte list \<Rightarrow> byte list \<Rightarrow> nat \<Rightarrow> bool" where
  "strict_match save_data idb i =
     (if i + 22 > length save_data then False
      else if py_slice save_data i (i + 2) \<noteq> idb then False
      else if py_slice save_data (i + 4) (i + 9) \<noteq> mark5 then False
      else if py_slice save_data (i + 9) (i + 11) \<noteq> idb then False
      else if py_slice save_data (i + 13) (i + 22) \<noteq> mark9 then False
      else True)"

definition strict_scan :: "byte list \<Rightarrow> byte list \<Rightarrow> nat \<Rightarrow> nat \<Rightarrow> nat option" where
  "strict_scan save_data idb search_position max_search_position =
     first_in_range (strict_match save_data idb) search_position max_search_position"




section \<open>Field resolver\<close>

record char_fields =
  skip_value :: int
  strength_offset :: nat
  intelligence_offset :: nat
  personal_offset :: nat
  commander_offset :: nat
  marshal_offset :: nat

definition resolve_fields :: "byte list \<Rightarrow> nat \<Rightarrow> failure + char_fields" where
  "resolve_fields save_data char_offset =
     (let pattern_end = char_offset + 22
      in case unpack_le_i32 (py_slice save_data pattern_end (pattern_end + 4)) of
           Inl e \<Rightarrow> Inl e
         | Inr skip \<Rightarrow>
            (let so = (if skip > 0 then pattern_end + 4 + nat skip * 4 else pattern_end + 4)
             in Inr \<lparr> skip_value = skip,
                      strength_offset = so,
                      intelligence_offset = so + 4,
                      personal_offset = so + 0x28C,
                      commander_offset = so + 0x29C,
                      marshal_offset = so + 0x2AC \<rparr>))"


section \<open>Skill bitfield codec\<close>

datatype skill_type = Personal | Marshal | Commander

definition catalog :: "config \<Rightarrow> skill_type \<Rightarrow> skill list" where
  "catalog cfg ty =
     (case ty of Marshal \<Rightarrow> marshal_skills cfg
               | Commander \<Rightarrow> commander_skills cfg
               | Personal \<Rightarrow> personal_skills cfg)"


text \<open>\<open>(max([skill['id'] for skill in skills]) + 7) // 8\<close>; \<open>max\<close> of an empty list raises.\<close>

definition bytes_needed :: "skill list \<Rightarrow> failure + nat" where
  "bytes_needed skills =
     (if skills = [] then Inl ValueError
      else Inr ((Max (set (map skill_id skills)) + 7) div 8))"

text \<open>The test of one skill in the three decoding loops.\<close>

definition skill_active :: "byte list \<Rightarrow> skill \<Rightarrow> bool" where
  "skill_active skill_bytes skill =
     (let byte_index = skill_bit skill div 8;
          bit_position = skill_bit skill mod 8
      in byte_index < length skill_bytes \<and>
         (skill_bytes ! byte_index AND push_bit bit_position 1) \<noteq> 0)"

definition decode_active :: "skill list \<Rightarrow> byte list \<Rightarrow> skill list" where
  "decode_active skills skill_bytes =
     filter (\<lambda>skill. skill_value skill \<noteq> -1 \<and> skill_active skill_bytes skill) skills"

text \<open>\<open>while len(skill_bytes) <= byte_index: skill_bytes.append(0)\<close>\<close>

function grow_bytes :: "byte list \<Rightarrow> nat \<Rightarrow> byte list" where
  "grow_bytes skill_bytes byte_index =
     (if length skill_bytes \<le> byte_index
      then grow_bytes (skill_bytes @ [0]) byte_index
      else skill_bytes)"
  by pat_completeness auto
termination
  by (relation "measure (\<lambda>(bs, i). Suc i - length bs)") auto

declare grow_bytes.simps [simp del]

definition set_skill_bit :: "byte list \<Rightarrow> skill \<Rightarrow> byte list" where
  "set_skill_bit skill_bytes skill =
     (let byte_index = skill_bit skill div 8;
          bit_position = skill_bit skill mod 8;
          grown = grow_bytes skill_bytes byte_index
      in grown[byte_index := grown ! byte_index OR push_bit bit_position 1])"

section \<open>Random source\<close>

text \<open>
  The process-wide generator is modelled as an injected deterministic source: an infinite
  sequence of raw draws, read at a position that advances by one with every call.
  \<open>random.randint(a, b)\<close> reduces the raw draw into \<open>[a, b]\<close> and raises ValueError when
  \<open>b < a\<close>; \<open>random.choice(xs)\<close> indexes a non-empty list.
\<close>

type_synonym rng = "nat \<Rightarrow> nat"

definition randint_value :: "rng \<Rightarrow> nat \<Rightarrow> int \<Rightarrow> int \<Rightarrow> int" where
  "randint_value src k a b = a + int (src k mod nat (b - a + 1))"

definition randint :: "rng \<Rightarrow> nat \<Rightarrow> int \<Rightarrow> int \<Rightarrow> failure + int" where
  "randint src k a b = (if b < a then Inl ValueError else Inr (randint_value src k a b))"

definition choice :: "rng \<Rightarrow> nat \<Rightarrow> 'a list \<Rightarrow> 'a" where
  "choice src k xs = xs ! (src k mod length xs)"

text \<open>Python's \<open>int(x)\<close> on a float truncates towards zero.\<close>

definition py_int :: "rat \<Rightarrow> int" where
  "py_int x = (if 0 \<le> x then \<lfloor>x\<rfloor> else \<lceil>x\<rceil>)"

section \<open>Double-precision arithmetic\<close>

text \<open>
  \<open>round_double x\<close> is the double nearest to the rational \<open>x\<close>: the significand is
  rounded to 53 bits, a tie goes to the even significand. The exponent is not bounded,
  so the model covers the normal range of binary64, magnitudes from \<open>2^-1022\<close> up to
  \<open>2^1024\<close>; overflow to infinity and subnormal numbers are outside it.
\<close>

definition round_half_even :: "rat \<Rightarrow> int" where
  "round_half_even m =
     (let f = \<lfloor>m\<rfloor>; d = m - of_int f
      in if d < 1 / 2 then f else if 1 / 2 < d then f + 1 else if even f then f else f + 1)"

text \<open>The exponent \<open>e\<close> with \<open>2^e \<le> x < 2^(e + 1)\<close>, for positive \<open>x\<close>.\<close>

definition binary_exponent :: "rat \<Rightarrow> int" where
  "binary_exponent x =
     (case quotient_of x of
        (p, q) \<Rightarrow> let e0 = bitlen p - bitlen q in if 2 powi e0 \<le> x then e0 else e0 - 1)"

definition round_double :: "rat \<Rightarrow> rat" where
  "round_double x =
     (if x = 0 then 0
      else let q = binary_exponent \<bar>x\<bar> - 52
           in sgn x * of_int (round_half_even (\<bar>x\<bar> * 2 powi (- q))) * 2 powi q)"

text \<open>
  The operations \<open>+\<close>, \<open>-\<close> and \<open>*\<close> on doubles, and the conversion of an integer
  operand that Python performs before it combines an \<open>int\<close> with a \<open>float\<close>.
\<close>

definition fl_add :: "rat \<Rightarrow> rat \<Rightarrow> rat" where
  "fl_add a b = round_double (a + b)"

definition fl_sub :: "rat \<Rightarrow> rat \<Rightarrow> rat" where
  "fl_sub a b = round_double (a - b)"

definition fl_mul :: "rat \<Rightarrow> rat \<Rightarrow> rat" where
  "fl_mul a b = round_double (a * b)"

definition float_of_int :: "int \<Rightarrow> rat" where
  "float_of_int n = round_double (of_int n)"

section \<open>Attribute budget allocator\<close>

text \<open>
  The state of the allocation loop of one character. The three byte arrays, the three
  active lists and the three added lists of the source are indexed by the skill type.
\<close>

record alloc_state =
  skill_bytes :: "skill_type \<Rightarrow> byte list"
  active_skills :: "skill_type \<Rightarrow> skill list"
  added_skills :: "skill_type \<Rightarrow> skill list"
  current_attribute_value :: rat
  consecutive_failures :: int
  rng_pos :: nat

text \<open>\<open>for _ in range(pick_limit)\<close> of \<open>_try_add_skill\<close>, with the number of rounds left.\<close>

fun pick_skill :: "rng \<Rightarrow> skill list \<Rightarrow> rat \<Rightarrow> rat \<Rightarrow> nat \<Rightarrow> nat \<Rightarrow> skill option \<times> nat" where
  "pick_skill src available_skills current_attribute max_attribute 0 k = (None, k)"
| "pick_skill src available_skills current_attribute max_attribute (Suc n) k =
     (let skill = choice src k available_skills
      in if fl_sub max_attribute current_attribute < of_int (skill_value skill)
         then pick_skill src available_skills current_attribute max_attribute n (Suc k)
         else (Some skill, Suc k))"

definition available_skills :: "skill list \<Rightarrow> skill list \<Rightarrow> skill list" where
  "available_skills all_skills active =
     filter (\<lambda>skill. skill \<notin> set active \<and> skill_value skill \<noteq> -1) all_skills"

text \<open>
  \<open>_try_add_skill\<close> returns the pair \<open>(skill_added, new_skill)\<close> and mutates the byte
  array and the active list it was given; the model returns them as well, with the next
  read position of the random source.
\<close>

definition try_add_skill ::
  "config \<Rightarrow> rng \<Rightarrow> skill_type \<Rightarrow> byte list \<Rightarrow> skill list \<Rightarrow> rat \<Rightarrow> rat \<Rightarrow> nat
     \<Rightarrow> bool \<times> skill option \<times> byte list \<times> skill list \<times> nat" where
  "try_add_skill cfg src ty bytes active current_attribute max_attribute k =
     (let available = available_skills (catalog cfg ty) active
      in if available = [] then (False, None, bytes, active, k)
         else (case pick_skill src available current_attribute max_attribute
                      (nat (pick_limit cfg)) k of
                 (None, k') \<Rightarrow> (False, None, bytes, active, k')
               | (Some skill, k') \<Rightarrow>
                   (True, Some skill, set_skill_bit bytes skill, active @ [skill], k')))"

text \<open>The upper bound of the draw \<open>random.randint(0, max(1, int(max_random) - 1))\<close>.\<close>

definition random_value_bound :: "rat \<Rightarrow> int" where
  "random_value_bound max_random = max 1 (py_int max_random - 1)"

text \<open>
  The first half of an iteration of the \<open>while\<close> loop: the draw of \<open>random_value\<close> and
  the choice of the skill type, with the next read position of the random source. Both
  calls of \<open>randint\<close> have a non-empty range, so neither can raise.
\<close>

definition step_type :: "config \<Rightarrow> rng \<Rightarrow> int \<Rightarrow> rat \<Rightarrow> alloc_state \<Rightarrow> skill_type \<times> nat" where
  "step_type cfg src strength max_random st =
     (let random_value = randint_value src (rng_pos st) 0 (random_value_bound max_random)
      in if of_int random_value < fl_mul (float_of_int strength) (str_random_rate cfg)
         then (Personal, Suc (rng_pos st))
         else (if randint_value src (Suc (rng_pos st)) 0 2 = 0 then Marshal else Commander,
               Suc (Suc (rng_pos st))))"

text \<open>The call of \<open>_try_add_skill\<close> made by the iteration.\<close>

definition step_try ::
  "config \<Rightarrow> rng \<Rightarrow> int \<Rightarrow> rat \<Rightarrow> rat \<Rightarrow> alloc_state
     \<Rightarrow> bool \<times> skill option \<times> byte list \<times> skill list \<times> nat" where
  "step_try cfg src strength max_attribute_value max_random st =
     (case step_type cfg src strength max_random st of
        (ty, k2) \<Rightarrow>
          try_add_skill cfg src ty (skill_bytes st ty) (active_skills st ty)
            (current_attribute_value st) max_attribute_value k2)"

definition step_added :: "config \<Rightarrow> rng \<Rightarrow> int \<Rightarrow> rat \<Rightarrow> rat \<Rightarrow> alloc_state \<Rightarrow> bool" where
  "step_added cfg src strength max_attribute_value max_random st =
     fst (step_try cfg src strength max_attribute_value max_random st)"

text \<open>One iteration of the \<open>while\<close> loop, up to the update of \<open>consecutive_failures\<close>.\<close>

definition alloc_step :: "config \<Rightarrow> rng \<Rightarrow> int \<Rightarrow> rat \<Rightarrow> rat \<Rightarrow> alloc_state \<Rightarrow> alloc_state" where
  "alloc_step cfg src strength max_attribute_value max_random st =
     (case step_type cfg src strength max_random st of
        (ty, k2) \<Rightarrow>
          (case step_try cfg src strength max_attribute_value max_random st of
             (skill_added, new_skill, bytes', active', k3) \<Rightarrow>
               st\<lparr> skill_bytes := (skill_bytes st)(ty := bytes'),
                   active_skills := (active_skills st)(ty := active'),
                   added_skills :=
                     (case new_skill of
                        Some s \<Rightarrow> if skill_added
                                  then (added_skills st)(ty := added_skills st ty @ [s])
                                  else added_skills st
                      | None \<Rightarrow> added_skills st),
                   current_attribute_value :=
                     (if skill_added
                      then fl_add (current_attribute_value st)
                             (float_of_int (skill_value (last active')))
                      else current_attribute_value st),
                   consecutive_failures :=
                     (if skill_added then 0 else consecutive_failures st + 1),
                   rng_pos := k3 \<rparr>))"

definition all_skills_added :: "config \<Rightarrow> alloc_state \<Rightarrow> bool" where
  "all_skills_added cfg st \<longleftrightarrow>
     length (active_skills st Marshal) = length (marshal_skills cfg) \<and>
     length (active_skills st Commander) = length (commander_skills cfg) \<and>
     length (active_skills st Personal) = length (personal_skills cfg)"

text \<open>The number of catalog entries that could still be added: the loop's variant.\<close>

definition remaining :: "config \<Rightarrow> alloc_state \<Rightarrow> nat" where
  "remaining cfg st =
     length (available_skills (catalog cfg Personal) (active_skills st Personal)) +
     length (available_skills (catalog cfg Marshal) (active_skills st Marshal)) +
     length (available_skills (catalog cfg Commander) (active_skills st Commander))"

text \<open>Facts about one iteration that the termination proof of the loop needs.\<close>

lemma pick_skill_Some:
  "pick_skill src available cur mx n k = (Some s, k') \<Longrightarrow> available \<noteq> [] \<Longrightarrow>
     s \<in> set available \<and> \<not> fl_sub mx cur < of_int (skill_value s)"
proof (induction n arbitrary: k)
  case 0
  then show ?case by simp
next
  case (Suc n)
  show ?case
  proof (cases "fl_sub mx cur < of_int (skill_value (choice src k available))")
    case True
    with Suc.prems have "pick_skill src available cur mx n (Suc k) = (Some s, k')"
      by (simp add: Let_def)
    with Suc.IH Suc.prems show ?thesis by blast
  next
    case False
    with Suc.prems have "s = choice src k available" by (simp add: Let_def)
    moreover from Suc.prems have "choice src k available \<in> set available"
      by (simp add: choice_def)
    ultimately show ?thesis using False by simp
  qed
qed

lemma try_add_skill_cases:
  assumes "try_add_skill cfg src ty bytes active cur mx k = (added, new, bytes', active', k')"
  shows "(added \<and> (\<exists>s. new = Some s \<and> s \<in> set (available_skills (catalog cfg ty) active) \<and>
                    \<not> fl_sub mx cur < of_int (skill_value s) \<and>
                    bytes' = set_skill_bit bytes s \<and> active' = active @ [s])) \<or>
         (\<not> added \<and> new = None \<and> bytes' = bytes \<and> active' = active)"
proof (cases "available_skills (catalog cfg ty) active = []")
  case True
  with assms show ?thesis by (simp add: try_add_skill_def)
next
  case False
  obtain r kk where p: "pick_skill src (available_skills (catalog cfg ty) active) cur mx
                      (nat (pick_limit cfg)) k = (r, kk)"
    by (cases "pick_skill src (available_skills (catalog cfg ty) active) cur mx
                      (nat (pick_limit cfg)) k")
  show ?thesis
  proof (cases r)
    case None
    with assms False p show ?thesis by (simp add: try_add_skill_def)
  next
    case (Some s)
    with p False pick_skill_Some have "s \<in> set (available_skills (catalog cfg ty) active) \<and>
                    \<not> fl_sub mx cur < of_int (skill_value s)" by blast
    with assms False p Some show ?thesis by (auto simp add: try_add_skill_def)
  qed
qed

lemma available_skills_snoc_less:
  assumes "s \<in> set (available_skills all_skills active)"
  shows "length (available_skills all_skills (active @ [s])) < length (available_skills all_skills active)"
proof -
  have "available_skills all_skills (active @ [s]) =
          filter (\<lambda>x. x \<noteq> s) (available_skills all_skills active)"
    by (auto simp: available_skills_def intro: filter_cong)
  moreover have "length (filter (\<lambda>x. x \<noteq> s) (available_skills all_skills active)) <
                 length (available_skills all_skills active)"
    using assms by (intro length_filter_less) auto
  ultimately show ?thesis by simp
qed


lemma alloc_step_unfold:
  assumes "step_type cfg src strength mr st = (ty, k2)"
    and "step_try cfg src strength mx mr st = (added, new, bytes', active', k3)"
  shows "alloc_step cfg src strength mx mr st =
      st\<lparr> skill_bytes := (skill_bytes st)(ty := bytes'),
          active_skills := (active_skills st)(ty := active'),
          added_skills :=
            (case new of
               Some s \<Rightarrow> if added then (added_skills st)(ty := added_skills st ty @ [s])
                          else added_skills st
             | None \<Rightarrow> added_skills st),
          current_attribute_value :=
            (if added then fl_add (current_attribute_value st)
                             (float_of_int (skill_value (last active')))
             else current_attribute_value st),
          consecutive_failures := (if added then 0 else consecutive_failures st + 1),
          rng_pos := k3 \<rparr>"
  using assms by (simp add: alloc_step_def)

lemma step_try_cases:
  assumes "step_type cfg src strength mr st = (ty, k2)"
    and "step_try cfg src strength mx mr st = (added, new, bytes', active', k3)"
  shows "(added \<and> (\<exists>s. new = Some s \<and>
                    s \<in> set (available_skills (catalog cfg ty) (active_skills st ty)) \<and>
                    \<not> fl_sub mx (current_attribute_value st) < of_int (skill_value s) \<and>
                    bytes' = set_skill_bit (skill_bytes st ty) s \<and>
                    active' = active_skills st ty @ [s])) \<or>
         (\<not> added \<and> new = None \<and> bytes' = skill_bytes st ty \<and> active' = active_skills st ty)"
proof -
  from assms have "try_add_skill cfg src ty (skill_bytes st ty) (active_skills st ty)
          (current_attribute_value st) mx k2 = (added, new, bytes', active', k3)"
    by (simp add: step_try_def)
  from try_add_skill_cases [OF this] show ?thesis .
qed

lemma alloc_step_progress:
  "(remaining cfg (alloc_step cfg src strength mx mr st) < remaining cfg st \<and>
      consecutive_failures (alloc_step cfg src strength mx mr st) = 0) \<or>
   (remaining cfg (alloc_step cfg src strength mx mr st) = remaining cfg st \<and>
      consecutive_failures (alloc_step cfg src strength mx mr st) = consecutive_failures st + 1)"
proof -
  obtain ty k2 where ty: "step_type cfg src strength mr st = (ty, k2)"
    by (cases "step_type cfg src strength mr st")
  obtain added new bytes' active' k3 where
    t: "step_try cfg src strength mx mr st = (added, new, bytes', active', k3)"
    by (metis prod_cases5)
  note step = alloc_step_unfold [OF ty t]
  from step_try_cases [OF ty t] show ?thesis
  proof
    assume "added \<and> (\<exists>s. new = Some s \<and>
              s \<in> set (available_skills (catalog cfg ty) (active_skills st ty)) \<and>
              \<not> fl_sub mx (current_attribute_value st) < of_int (skill_value s) \<and>
              bytes' = set_skill_bit (skill_bytes st ty) s \<and> active' = active_skills st ty @ [s])"
    then obtain s where s: "added" "s \<in> set (available_skills (catalog cfg ty) (active_skills st ty))"
      "active' = active_skills st ty @ [s]" by blast
    from available_skills_snoc_less [OF s(2)] s(3)
    have "length (available_skills (catalog cfg ty) active') <
          length (available_skills (catalog cfg ty) (active_skills st ty))" by simp
    then have "remaining cfg (alloc_step cfg src strength mx mr st) < remaining cfg st"
      unfolding step remaining_def by (cases ty) simp_all
    with s(1) step show ?thesis by simp
  next
    assume "\<not> added \<and> new = None \<and> bytes' = skill_bytes st ty \<and> active' = active_skills st ty"
    then show ?thesis unfolding step remaining_def by simp
  qed
qed

text \<open>
  The \<open>while\<close> loop. It is a total function: every iteration either adds a skill, which
  shrinks the number of catalog entries still available, or raises the failure counter
  towards \<open>reroll_limit\<close>.
\<close>

function allocation_loop :: "config \<Rightarrow> rng \<Rightarrow> int \<Rightarrow> rat \<Rightarrow> rat \<Rightarrow> alloc_state \<Rightarrow> alloc_state" where
  "allocation_loop cfg src strength max_attribute_value max_random st =
     (if consecutive_failures st < reroll_limit cfg then
        (let st' = alloc_step cfg src strength max_attribute_value max_random st
         in if all_skills_added cfg st' then st'
            else allocation_loop cfg src strength max_attribute_value max_random st')
      else st)"
  by pat_completeness auto
termination
proof (relation "inv_image (less_than <*lex*> less_than)
         (\<lambda>(cfg, src, strength, mx, mr, st).
            (remaining cfg st, nat (reroll_limit cfg - consecutive_failures st)))")
  show "wf (inv_image (less_than <*lex*> less_than)
         (\<lambda>(cfg, src, strength, mx, mr, st).
            (remaining cfg st, nat (reroll_limit cfg - consecutive_failures st))))"
    by (intro wf_inv_image wf_lex_prod wf_less_than)
next
  fix cfg src strength mx mr st st'
  assume "consecutive_failures st < reroll_limit cfg"
    and "st' = alloc_step cfg src strength mx mr st"
  with alloc_step_progress [of cfg src strength mx mr st]
  show "((cfg, src, strength, mx, mr, st'), (cfg, src, strength, mx, mr, st))
          \<in> inv_image (less_than <*lex*> less_than)
         (\<lambda>(cfg, src, strength, mx, mr, st).
            (remaining cfg st, nat (reroll_limit cfg - consecutive_failures st)))"
    by auto
qed

text \<open>
  The states the loop passes through, one after each iteration, defined by the same
  recursion; the loop's result is the last of them.
\<close>

function loop_states ::
  "config \<Rightarrow> rng \<Rightarrow> int \<Rightarrow> rat \<Rightarrow> rat \<Rightarrow> alloc_state \<Rightarrow> alloc_state list" where
  "loop_states cfg src strength max_attribute_value max_random st =
     (if consecutive_failures st < reroll_limit cfg then
        (let st' = alloc_step cfg src strength max_attribute_value max_random st
         in if all_skills_added cfg st' then [st']
            else st' # loop_states cfg src strength max_attribute_value max_random st')
      else [])"
  by pat_completeness auto
termination
proof (relation "inv_image (less_than <*lex*> less_than)
         (\<lambda>(cfg, src, strength, mx, mr, st).
            (remaining cfg st, nat (reroll_limit cfg - consecutive_failures st)))")
  show "wf (inv_image (less_than <*lex*> less_than)
         (\<lambda>(cfg, src, strength, mx, mr, st).
            (remaining cfg st, nat (reroll_limit cfg - consecutive_failures st))))"
    by (intro wf_inv_image wf_lex_prod wf_less_than)
next
  fix cfg src strength mx mr st st'
  assume "consecutive_failures st < reroll_limit cfg"
    and "st' = alloc_step cfg src strength mx mr st"
  with alloc_step_progress [of cfg src strength mx mr st]
  show "((cfg, src, strength, mx, mr, st'), (cfg, src, strength, mx, mr, st))
          \<in> inv_image (less_than <*lex*> less_than)
         (\<lambda>(cfg, src, strength, mx, mr, st).
            (remaining cfg st, nat (reroll_limit cfg - consecutive_failures st)))"
    by auto
qed

declare allocation_loop.simps [simp del] loop_states.simps [simp del]

section \<open>Save file processor\<close>

record run_state =
  save_data :: "byte list"
  search_position :: nat
  total_skills_added :: nat
  total_characters :: nat
  characters_processed :: nat
  rng_next :: nat




text \<open>The first threshold above the current value, or the number of thresholds.\<close>

fun find_rate_index :: "rat \<Rightarrow> rat list \<Rightarrow> nat \<Rightarrow> nat" where
  "find_rate_index current [] i = i"
| "find_rate_index current (threshold # ts) i =
     (if current < threshold then i else find_rate_index current ts (Suc i))"

text \<open>\<open>max_random = strength * str_random_rate + intelligence * int_random_rate\<close>\<close>

definition max_random_of :: "config \<Rightarrow> int \<Rightarrow> int \<Rightarrow> rat" where
  "max_random_of cfg strength intelligence =
     fl_add (fl_mul (float_of_int strength) (str_random_rate cfg))
            (fl_mul (float_of_int intelligence) (int_random_rate cfg))"

text \<open>
  Everything between the extraction of the skill bytes and the \<open>while\<close> loop: the
  result is the adjusted \<open>max_attribute_value\<close>, \<open>max_random\<close> and the loop's first state.
  \<open>sum\<close> adds the products from left to right, starting from 0, and rounds after every
  addition (CPython from version 3.12 on compensates the rounding error of the running
  sum; that is not modelled).
\<close>

definition init_alloc ::
  "config \<Rightarrow> rng \<Rightarrow> int \<Rightarrow> int \<Rightarrow> (skill_type \<Rightarrow> byte list) \<Rightarrow> nat
     \<Rightarrow> failure + (rat \<times> rat \<times> alloc_state)" where
  "init_alloc cfg src strength intelligence bytes k =
     (let active = (\<lambda>ty. decode_active (catalog cfg ty) (bytes ty));
          max_attribute_value = 233 + extra_attribute cfg;
          active_skill_value =
            foldl fl_add 0
              (map (\<lambda>skill. fl_mul (float_of_int (skill_value skill)) (exist_attribute_rate cfg))
              (filter (\<lambda>skill. skill_value skill \<noteq> -1)
                 (active Marshal @ active Commander @ active Personal)))
      in case randint src k (random_extra_attribute_min cfg) (random_extra_attribute_max cfg) of
           Inl e \<Rightarrow> Inl e
         | Inr random_extra \<Rightarrow>
            (let current_attribute_value =
                   fl_add
                     (fl_add
                        (fl_add (fl_mul (float_of_int strength) (str_rate cfg))
                                (fl_mul (float_of_int intelligence) (int_rate cfg)))
                        (float_of_int random_extra))
                     active_skill_value;
                 rate_index = find_rate_index current_attribute_value (attribute_thresholds cfg) 0
             in if rate_index < length (attribute_rates cfg)
                then Inr (fl_mul (float_of_int max_attribute_value)
                            (attribute_rates cfg ! rate_index),
                          max_random_of cfg strength intelligence,
                          \<lparr> skill_bytes = bytes, active_skills = active,
                            added_skills = (\<lambda>ty. []),
                            current_attribute_value = current_attribute_value,
                            consecutive_failures = 0, rng_pos = Suc k \<rparr>)
                else Inl IndexError))"







section \<open>Reference formulations and sample data\<close>

text \<open>
  The value of four bytes read as a little-endian two's complement integer, written
  with plain integer arithmetic.
\<close>

definition le_signed32 :: "byte \<Rightarrow> byte \<Rightarrow> byte \<Rightarrow> byte \<Rightarrow> int" where
  "le_signed32 b0 b1 b2 b3 =
     (let u = uint b0 + 256 * uint b1 + 65536 * uint b2 + 16777216 * uint b3
      in if u < 2147483648 then u else u - 4294967296)"

text \<open>
  The 22-byte template of the scanner's contract: the id bytes at \<open>i\<close> and \<open>i + 9\<close>,
  \<open>Mark\0\<close> at \<open>i + 4\<close>, \<open>Mark\0\0\0\0\0\<close> at \<open>i + 13\<close>; the bytes at \<open>i + 2\<close>, \<open>i + 3\<close>,
  \<open>i + 11\<close> and \<open>i + 12\<close> are not looked at.
\<close>

definition signature_template :: "byte list \<Rightarrow> byte list \<Rightarrow> nat \<Rightarrow> bool" where
  "signature_template buf idBytes i \<longleftrightarrow>
     py_slice buf i (i + 2) = idBytes \<and>
     py_slice buf (i + 4) (i + 9) = [0x4D, 0x61, 0x72, 0x6B, 0] \<and>
     py_slice buf (i + 9) (i + 11) = idBytes \<and>
     py_slice buf (i + 13) (i + 22) = [0x4D, 0x61, 0x72, 0x6B, 0, 0, 0, 0, 0]"

text \<open>
  A small buffer: one stray byte, the record of character 2 at offset 1, a skip count
  of 1, one skipped entry, strength 100 and intelligence 90.
\<close>

definition sample_record :: "byte list" where
  "sample_record =
     [0x07,
      0x02, 0x00, 0x11, 0x07, 0x4D, 0x61, 0x72, 0x6B, 0x00,
      0x02, 0x00, 0xAA, 0xBB, 0x4D, 0x61, 0x72, 0x6B, 0x00, 0x00, 0x00, 0x00, 0x00,
      0x01, 0x00, 0x00, 0x00,
      0xEE, 0xEE, 0xEE, 0xEE,
      0x64, 0x00, 0x00, 0x00,
      0x5A, 0x00, 0x00, 0x00]"

text \<open>
  The byte length of a category's bitfield in the words of the codec's contract:
  \<open>ceil((max id + 1) / 8)\<close>.
\<close>

definition spec_byte_length :: "skill list \<Rightarrow> nat" where
  "spec_byte_length definitions = (Max (set (map skill_id definitions)) + 1 + 7) div 8"


definition skill8 :: skill where
  "skill8 = \<lparr> skill_id = 8, skill_name = ''eighth'', skill_desc = ''bit 0 of byte 1'',
              skill_value = 10 \<rparr>"

definition skill0 :: skill where
  "skill0 = \<lparr> skill_id = 0, skill_name = ''first'', skill_desc = ''bit 0 of byte 0'',
              skill_value = 10 \<rparr>"

definition skill3 :: skill where
  "skill3 = \<lparr> skill_id = 3, skill_name = ''fourth'', skill_desc = ''bit 3 of byte 0'',
              skill_value = 500 \<rparr>"

text \<open>A random source that returns the same raw draw at every position.\<close>

definition constant_source :: "nat \<Rightarrow> rng" where
  "constant_source n k = n"

text \<open>
  Settings close to the built-in ones of \<open>__init__\<close>, with rates that are doubles, and
  a small catalog.
\<close>

definition sample_config :: config where
  "sample_config =
     \<lparr> marshal_skills = [skill0], commander_skills = [skill3], personal_skills = [skill8],
       debug_mode = False, pick_limit = 5, reroll_limit = 3, extra_attribute = 30,
       str_rate = 3 / 2, int_rate = 1,
       random_extra_attribute_min = -30, random_extra_attribute_max = 30,
       str_random_rate = 1, int_random_rate = 1,
       attribute_thresholds = [100, 130, 160, 190],
       attribute_rates = [3 / 2, 5 / 4, 9 / 8, 1, 7 / 8],
       exist_attribute_rate = 3 / 4, last_character_number = 1 \<rparr>"

text \<open>
  A loop state of a character with no active skill, a current attribute value of 200
  and a fresh failure counter.
\<close>

definition sample_alloc :: alloc_state where
  "sample_alloc =
     \<lparr> skill_bytes = (\<lambda>ty. []), active_skills = (\<lambda>ty. []), added_skills = (\<lambda>ty. []),
       current_attribute_value = 200, consecutive_failures = 0, rng_pos = 0 \<rparr>"

text \<open>
  The invariant of the allocation loop that ties the active lists to the skill bytes,
  relative to the state \<open>st\<close> the loop started from.
\<close>

definition codec_inv :: "config \<Rightarrow> alloc_state \<Rightarrow> alloc_state \<Rightarrow> bool" where
  "codec_inv cfg st a \<longleftrightarrow>
     (\<forall>ty. active_skills a ty = active_skills st ty @ added_skills a ty \<and>
           distinct (active_skills a ty) \<and>
           set (active_skills a ty) = set (decode_active (catalog cfg ty) (skill_bytes a ty)) \<and>
           length (skill_bytes st ty) \<le> length (skill_bytes a ty) \<and>
           (\<forall>i n. i < length (skill_bytes st ty) \<and> bit (skill_bytes st ty ! i) n \<longrightarrow>
                  bit (skill_bytes a ty ! i) n))"

text \<open>The loop's first state for a character with strength 100 and intelligence 90.\<close>

definition sample_start :: alloc_state where
  "sample_start =
     \<lparr> skill_bytes = (\<lambda>ty. []), active_skills = (\<lambda>ty. []), added_skills = (\<lambda>ty. []),
       current_attribute_value = 210, consecutive_failures = 0, rng_pos = Suc 0 \<rparr>"











section \<open>Auxiliary facts\<close>

subsection \<open>Rounding to double precision\<close>

lemma two_powi_pos: "0 < (2::rat) powi e"
  by simp



lemma two_powi_Suc: "(2::rat) powi (e + 1) = 2 * 2 powi e"
  by (simp add: power_int_add)























text \<open>The rounded operations on the numbers of the sample character.\<close>

lemma float_of_int_small:
  "float_of_int 100 = 100" "float_of_int 90 = 90" "float_of_int (- 30) = - 30"
  "float_of_int 263 = 263" "float_of_int 10 = 10"
  by (code_simp+)

lemma sample_products:
  "fl_mul 100 1 = 100" "fl_mul 90 1 = 90" "fl_mul 100 (3 / 2) = 150"
  "fl_mul 263 (7 / 8) = 1841 / 8"
  by (code_simp+)

lemma sample_sums:
  "fl_add 150 90 = 240" "fl_add 240 (- 30) = 210" "fl_add 210 0 = 210" "fl_add 100 90 = 190"
  "fl_sub (1841 / 8) 210 = 161 / 8" "fl_add 210 10 = 220"
  by (code_simp+)


subsection \<open>Bytes and slices\<close>

lemma sint32:
  assumes "0 \<le> u" "u < 4294967296"
  shows "sint (word_of_int u :: 32 word) = (if u < 2147483648 then u else u - 4294967296)"
proof -
  have "sint (word_of_int u :: 32 word) = (u + 2147483648) mod 4294967296 - 2147483648"
    by (simp add: sint_sbintrunc' signed_take_bit_eq_take_bit_shift take_bit_eq_mod)
  also have "\<dots> = (if u < 2147483648 then u else u - 4294967296)"
  proof (cases "u < 2147483648")
    case True
    with assms have "(u + 2147483648) mod 4294967296 = u + 2147483648"
      by (simp add: mod_pos_pos_trivial)
    with True show ?thesis by simp
  next
    case False
    have "u + 2147483648 = (u - 2147483648) + 4294967296" by simp
    then have "(u + 2147483648) mod 4294967296 = (u - 2147483648) mod 4294967296"
      by (simp only: mod_add_self2)
    also from False assms have "\<dots> = u - 2147483648"
      by (simp add: mod_pos_pos_trivial)
    finally show ?thesis using False by simp
  qed
  finally show ?thesis .
qed

lemma uint_byte_bound: "uint (b :: byte) < 256"
  using uint_bounded [of b] by simp

lemma unpack_le_i32_four:
  "unpack_le_i32 [b0, b1, b2, b3] = Inr (le_signed32 b0 b1 b2 b3)"
proof -
  let ?u = "uint b0 + 256 * uint b1 + 65536 * uint b2 + 16777216 * uint b3"
  have "0 \<le> ?u" by simp
  moreover have "?u < 4294967296"
    using uint_byte_bound [of b0] uint_byte_bound [of b1]
          uint_byte_bound [of b2] uint_byte_bound [of b3] by linarith
  ultimately show ?thesis
    by (simp only: unpack_le_i32_def le_signed32_def Let_def list.case sint32)
qed


lemma unpack_le_i32_short:
  "length bs \<noteq> 4 \<Longrightarrow> unpack_le_i32 bs = Inl StructError"
  by (auto simp: unpack_le_i32_def split: list.splits)

lemma py_slice_length: "length (py_slice xs a b) = min (b - a) (length xs - a)"
  by (simp add: py_slice_def)

lemma py_slice_four:
  assumes "a + 4 \<le> length xs"
  shows "py_slice xs a (a + 4) = [xs ! a, xs ! (a + 1), xs ! (a + 2), xs ! (a + 3)]"
proof -
  have "drop a xs = xs ! a # drop (Suc a) xs"
    using assms by (intro Cons_nth_drop_Suc [symmetric]) simp
  moreover have "drop (Suc a) xs = xs ! (a + 1) # drop (Suc (Suc a)) xs"
    using assms Cons_nth_drop_Suc [of "Suc a" xs] by simp
  moreover have "drop (Suc (Suc a)) xs = xs ! (a + 2) # drop (Suc (Suc (Suc a))) xs"
    using assms Cons_nth_drop_Suc [of "Suc (Suc a)" xs] by simp
  moreover have "drop (Suc (Suc (Suc a))) xs = xs ! (a + 3) # drop (Suc (Suc (Suc (Suc a)))) xs"
    using assms Cons_nth_drop_Suc [of "Suc (Suc (Suc a))" xs] by (simp add: numeral_3_eq_3)
  ultimately show ?thesis
    by (simp add: py_slice_def)
qed

subsection \<open>The scan loop\<close>

lemma first_in_range_Some_iff:
  "first_in_range P lo hi = Some i \<longleftrightarrow>
     lo \<le> i \<and> i < hi \<and> P i \<and> (\<forall>j. lo \<le> j \<and> j < i \<longrightarrow> \<not> P j)"
proof
  assume "first_in_range P lo hi = Some i"
  then obtain k where k: "k < hi - lo" "P ([lo..<hi] ! k)" "i = [lo..<hi] ! k"
    "\<forall>j<k. \<not> P ([lo..<hi] ! j)"
    unfolding first_in_range_def find_Some_iff by auto
  from k(1) have ik: "i = lo + k" using k(3) by simp
  have "\<not> P j" if "lo \<le> j" "j < i" for j
  proof -
    from that ik have "j - lo < k" by arith
    with k(4) have "\<not> P ([lo..<hi] ! (j - lo))" by blast
    moreover from that ik k(1) have "[lo..<hi] ! (j - lo) = j" by simp
    ultimately show ?thesis by simp
  qed
  with k ik show "lo \<le> i \<and> i < hi \<and> P i \<and> (\<forall>j. lo \<le> j \<and> j < i \<longrightarrow> \<not> P j)"
    by auto
next
  assume a: "lo \<le> i \<and> i < hi \<and> P i \<and> (\<forall>j. lo \<le> j \<and> j < i \<longrightarrow> \<not> P j)"
  then have "i - lo < length [lo..<hi]" "[lo..<hi] ! (i - lo) = i" by auto
  moreover have "\<forall>j<i - lo. \<not> P ([lo..<hi] ! j)"
  proof (intro allI impI)
    fix j assume "j < i - lo"
    with a have "[lo..<hi] ! j = lo + j" "lo \<le> lo + j" "lo + j < i" by auto
    with a show "\<not> P ([lo..<hi] ! j)" by simp
  qed
  ultimately show "first_in_range P lo hi = Some i"
    unfolding first_in_range_def find_Some_iff using a by metis
qed


lemma strict_match_template:
  "strict_match buf idb i \<longleftrightarrow> signature_template buf idb i"
proof -
  have "i + 22 \<le> length buf"
    if "py_slice buf (i + 13) (i + 22) = [0x4D, 0x61, 0x72, 0x6B, 0, 0, 0, 0, 0]"
  proof -
    from that have "length (py_slice buf (i + 13) (i + 22)) = 9" by simp
    then show ?thesis by (simp add: py_slice_length min_def split: if_splits)
  qed
  then show ?thesis
    by (auto simp: strict_match_def signature_template_def mark5_def mark9_def)
qed

subsection \<open>Byte counts and random draws\<close>

lemma bytes_needed_vs_spec:
  assumes "bytes_needed skills = Inr n"
  shows "n = spec_byte_length skills \<longleftrightarrow> Max (set (map skill_id skills)) mod 8 \<noteq> 0"
proof -
  from assms have "n = (Max (set (map skill_id skills)) + 7) div 8"
    by (auto simp: bytes_needed_def split: if_splits)
  moreover have "(m + 7) div 8 = (m + 1 + 7) div 8 \<longleftrightarrow> m mod 8 \<noteq> 0" for m :: nat
    by (simp add: div_add1_eq [of m] mod_less_divisor) arith
  ultimately show ?thesis unfolding spec_byte_length_def by simp
qed






lemma floor_rat_numeral_div:
  "\<lfloor>numeral a / numeral b :: rat\<rfloor> = numeral a div numeral b"
  using floor_divide_of_int_eq [of "numeral a" "numeral b", where ?'a = rat] by simp


subsection \<open>The allocation loop and its states\<close>

lemma alloc_step_added:
  assumes "step_added cfg src strength mx mr a"
  shows "\<exists>ty s. s \<in> set (available_skills (catalog cfg ty) (active_skills a ty)) \<and>
           \<not> fl_sub mx (current_attribute_value a) < of_int (skill_value s) \<and>
           skill_bytes (alloc_step cfg src strength mx mr a) =
             (skill_bytes a)(ty := set_skill_bit (skill_bytes a ty) s) \<and>
           active_skills (alloc_step cfg src strength mx mr a) =
             (active_skills a)(ty := active_skills a ty @ [s]) \<and>
           added_skills (alloc_step cfg src strength mx mr a) =
             (added_skills a)(ty := added_skills a ty @ [s]) \<and>
           current_attribute_value (alloc_step cfg src strength mx mr a) =
             fl_add (current_attribute_value a) (float_of_int (skill_value s)) \<and>
           consecutive_failures (alloc_step cfg src strength mx mr a) = 0"
proof -
  obtain ty k2 where ty: "step_type cfg src strength mr a = (ty, k2)"
    by (cases "step_type cfg src strength mr a")
  obtain added new bytes' active' k3 where
    t: "step_try cfg src strength mx mr a = (added, new, bytes', active', k3)"
    by (metis prod_cases5)
  from assms t have added by (simp add: step_added_def)
  with step_try_cases [OF ty t] obtain s where
    s: "new = Some s" "s \<in> set (available_skills (catalog cfg ty) (active_skills a ty))"
       "\<not> fl_sub mx (current_attribute_value a) < of_int (skill_value s)"
       "bytes' = set_skill_bit (skill_bytes a ty) s" "active' = active_skills a ty @ [s]"
    by blast
  from \<open>added\<close> s show ?thesis
    unfolding alloc_step_unfold [OF ty t] by (intro exI [of _ ty] exI [of _ s]) simp
qed

lemma alloc_step_not_added:
  assumes "\<not> step_added cfg src strength mx mr a"
  shows "skill_bytes (alloc_step cfg src strength mx mr a) = skill_bytes a \<and>
         active_skills (alloc_step cfg src strength mx mr a) = active_skills a \<and>
         added_skills (alloc_step cfg src strength mx mr a) = added_skills a \<and>
         current_attribute_value (alloc_step cfg src strength mx mr a) =
           current_attribute_value a \<and>
         consecutive_failures (alloc_step cfg src strength mx mr a) =
           consecutive_failures a + 1"
proof -
  obtain ty k2 where ty: "step_type cfg src strength mr a = (ty, k2)"
    by (cases "step_type cfg src strength mr a")
  obtain added new bytes' active' k3 where
    t: "step_try cfg src strength mx mr a = (added, new, bytes', active', k3)"
    by (metis prod_cases5)
  from assms t have "\<not> added" by (simp add: step_added_def)
  with step_try_cases [OF ty t] have "new = None" "bytes' = skill_bytes a ty"
    "active' = active_skills a ty" by blast+
  with \<open>\<not> added\<close> show ?thesis
    unfolding alloc_step_unfold [OF ty t] by simp
qed


lemma loop_states_nth:
  "i < length (loop_states cfg src strength mx mr st) \<Longrightarrow>
   loop_states cfg src strength mx mr st ! i =
     alloc_step cfg src strength mx mr ((st # loop_states cfg src strength mx mr st) ! i) \<and>
   consecutive_failures ((st # loop_states cfg src strength mx mr st) ! i) < reroll_limit cfg \<and>
   (0 < i \<longrightarrow> \<not> all_skills_added cfg ((st # loop_states cfg src strength mx mr st) ! i))"
proof (induction cfg src strength mx mr st arbitrary: i rule: loop_states.induct)
  case (1 cfg src strength mx mr st)
  let ?st' = "alloc_step cfg src strength mx mr st"
  from "1.prems" have c: "consecutive_failures st < reroll_limit cfg"
    by (subst (asm) loop_states.simps) (auto split: if_splits)
  show ?case
  proof (cases "all_skills_added cfg ?st'")
    case True
    with c have "loop_states cfg src strength mx mr st = [?st']"
      by (subst loop_states.simps) (simp add: Let_def)
    with "1.prems" c show ?thesis by simp
  next
    case False
    with c have u: "loop_states cfg src strength mx mr st =
                      ?st' # loop_states cfg src strength mx mr ?st'"
      by (subst loop_states.simps) (simp add: Let_def)
    show ?thesis
    proof (cases i)
      case 0
      with u c show ?thesis by simp
    next
      case (Suc j)
      with "1.prems" u have j: "j < length (loop_states cfg src strength mx mr ?st')" by simp
      from "1.IH" [OF c refl False j] Suc u False show ?thesis
        by (cases j) simp_all
    qed
  qed
qed

lemma allocation_loop_last:
  "allocation_loop cfg src strength mx mr st =
     last (st # loop_states cfg src strength mx mr st)"
proof (induction cfg src strength mx mr st rule: allocation_loop.induct)
  case (1 cfg src strength mx mr st)
  let ?st' = "alloc_step cfg src strength mx mr st"
  show ?case
  proof (cases "consecutive_failures st < reroll_limit cfg")
    case False
    then show ?thesis
      by (subst allocation_loop.simps, subst loop_states.simps) simp
  next
    case c: True
    show ?thesis
    proof (cases "all_skills_added cfg ?st'")
      case True
      with c show ?thesis
        by (subst allocation_loop.simps, subst loop_states.simps) (simp add: Let_def)
    next
      case False
      with c "1.IH" [OF c refl False] show ?thesis
        by (subst allocation_loop.simps, subst loop_states.simps) (simp add: Let_def)
    qed
  qed
qed

lemma loop_stop_condition:
  "\<not> consecutive_failures (allocation_loop cfg src strength mx mr st) < reroll_limit cfg \<or>
   all_skills_added cfg (allocation_loop cfg src strength mx mr st)"
proof (induction cfg src strength mx mr st rule: allocation_loop.induct)
  case (1 cfg src strength mx mr st)
  let ?st' = "alloc_step cfg src strength mx mr st"
  show ?case
  proof (cases "consecutive_failures st < reroll_limit cfg")
    case False
    then show ?thesis by (subst (1 2) allocation_loop.simps) simp
  next
    case c: True
    show ?thesis
    proof (cases "all_skills_added cfg ?st'")
      case True
      with c show ?thesis by (subst (1 2) allocation_loop.simps) (simp add: Let_def)
    next
      case False
      with c "1.IH" [OF c refl False] show ?thesis
        by (subst (1 2) allocation_loop.simps) (simp add: Let_def)
    qed
  qed
qed

lemma loop_states_invariant:
  assumes "P st"
    and "\<And>a. P a \<Longrightarrow> consecutive_failures a < reroll_limit cfg \<Longrightarrow>
            P (alloc_step cfg src strength mx mr a)"
  shows "i < length (st # loop_states cfg src strength mx mr st) \<Longrightarrow>
         P ((st # loop_states cfg src strength mx mr st) ! i)"
proof (induction i)
  case 0
  with assms(1) show ?case by simp
next
  case (Suc i)
  then have i: "i < length (loop_states cfg src strength mx mr st)" by simp
  from Suc have "P ((st # loop_states cfg src strength mx mr st) ! i)" by simp
  with loop_states_nth [OF i] assms(2) show ?case by simp
qed


lemma last_Cons_nth: "last (x # xs) = (x # xs) ! length xs"
  using last_conv_nth [of "x # xs"] by simp


lemma loop_states_not_entered:
  assumes "\<not> consecutive_failures st < reroll_limit cfg"
  shows "loop_states cfg src strength mx mr st = []"
  using assms by (subst loop_states.simps) simp

lemma failures_nonneg:
  assumes "0 \<le> consecutive_failures st"
    and "i < length (st # loop_states cfg src strength mx mr st)"
  shows "0 \<le> consecutive_failures ((st # loop_states cfg src strength mx mr st) ! i)"
proof (rule loop_states_invariant [where P = "\<lambda>a. 0 \<le> consecutive_failures a", OF assms(1) _ assms(2)])
  fix a :: alloc_state assume a: "0 \<le> consecutive_failures a"
  show "0 \<le> consecutive_failures (alloc_step cfg src strength mx mr a)"
    using alloc_step_progress [of cfg src strength mx mr a] a by auto
qed

lemma bound_after_failure:
  fixes L r K c :: nat
  assumes "c < K" "L \<le> r * (K + 1) + (K - Suc c)"
  shows "Suc L \<le> r * (K + 1) + (K - c)"
  using assms by arith

lemma bound_after_success:
  fixes L r r' K c :: nat
  assumes "r' < r" "L \<le> r' * (K + 1) + (K - 0)"
  shows "Suc L \<le> r * (K + 1) + (K - c)"
proof -
  from assms(1) have "Suc r' \<le> r" by simp
  then have "Suc r' * (K + 1) \<le> r * (K + 1)" by (rule mult_le_mono1)
  then have "r' * (K + 1) + K + 1 \<le> r * (K + 1)" by simp
  with assms(2) show ?thesis by arith
qed

lemma loop_states_length_bound:
  "0 \<le> consecutive_failures st \<Longrightarrow>
   length (loop_states cfg src strength mx mr st) \<le>
     remaining cfg st * (nat (reroll_limit cfg) + 1) +
     (nat (reroll_limit cfg) - nat (consecutive_failures st))"
proof (induction cfg src strength mx mr st rule: loop_states.induct)
  case (1 cfg src strength mx mr st)
  let ?K = "nat (reroll_limit cfg)"
  let ?st' = "alloc_step cfg src strength mx mr st"
  show ?case
  proof (cases "consecutive_failures st < reroll_limit cfg")
    case False
    then show ?thesis by (simp add: loop_states_not_entered)
  next
    case c: True
    with "1.prems" have cK: "nat (consecutive_failures st) < ?K" by simp
    show ?thesis
    proof (cases "all_skills_added cfg ?st'")
      case True
      with c have "loop_states cfg src strength mx mr st = [?st']"
        by (subst loop_states.simps) (simp add: Let_def)
      then have "length (loop_states cfg src strength mx mr st) = Suc 0" by simp
      moreover from cK have "Suc 0 \<le> ?K - nat (consecutive_failures st)" by arith
      ultimately show ?thesis by (simp only: trans_le_add2)
    next
      case False
      with c have "loop_states cfg src strength mx mr st =
                      ?st' # loop_states cfg src strength mx mr ?st'"
        by (subst loop_states.simps) (simp add: Let_def)
      then have u: "length (loop_states cfg src strength mx mr st) =
                      Suc (length (loop_states cfg src strength mx mr ?st'))" by simp
      from alloc_step_progress [of cfg src strength mx mr st] "1.prems"
      have nn: "0 \<le> consecutive_failures ?st'" by auto
      note IH = "1.IH" [OF c refl False nn]
      from alloc_step_progress [of cfg src strength mx mr st]
      show ?thesis
      proof
        assume p: "remaining cfg ?st' < remaining cfg st \<and> consecutive_failures ?st' = 0"
        then have "nat (consecutive_failures ?st') = 0" by simp
        with IH have "length (loop_states cfg src strength mx mr ?st') \<le>
                        remaining cfg ?st' * (?K + 1) + (?K - 0)" by (simp only:)
        with p show ?thesis unfolding u by (intro bound_after_success) simp_all
      next
        assume p: "remaining cfg ?st' = remaining cfg st \<and>
                   consecutive_failures ?st' = consecutive_failures st + 1"
        with "1.prems" have "nat (consecutive_failures ?st') = Suc (nat (consecutive_failures st))"
          by simp
        with IH p have "length (loop_states cfg src strength mx mr ?st') \<le>
                        remaining cfg st * (?K + 1) + (?K - Suc (nat (consecutive_failures st)))"
          by (simp only:)
        with cK show ?thesis unfolding u by (rule bound_after_failure)
      qed
    qed
  qed
qed

lemma failed_run_counts:
  assumes "0 \<le> consecutive_failures st"
    and "i + j < length (loop_states cfg src strength mx mr st)"
    and "\<forall>m < j. \<not> step_added cfg src strength mx mr
                      ((st # loop_states cfg src strength mx mr st) ! (i + m))"
  shows "int j \<le> consecutive_failures ((st # loop_states cfg src strength mx mr st) ! (i + j))"
  using assms(2,3)
proof (induction j)
  case 0
  with failures_nonneg [OF assms(1), of "i" cfg src strength mx mr] show ?case by simp
next
  case (Suc j)
  let ?L = "loop_states cfg src strength mx mr st"
  from Suc.prems have ij: "i + j < length ?L" by simp
  from Suc.prems have "\<not> step_added cfg src strength mx mr ((st # ?L) ! (i + j))" by simp
  from alloc_step_not_added [OF this] loop_states_nth [OF ij]
  have "consecutive_failures (?L ! (i + j)) = consecutive_failures ((st # ?L) ! (i + j)) + 1"
    by simp
  moreover from Suc.IH Suc.prems ij have "int j \<le> consecutive_failures ((st # ?L) ! (i + j))"
    by simp
  ultimately show ?case by simp
qed


subsection \<open>Single iterations on sample states\<close>

















subsection \<open>The bitfield codec\<close>

lemma byte_bit_test:
  "n < 8 \<Longrightarrow> (w AND push_bit n 1 \<noteq> 0) = bit w n" for w :: byte
  by (simp add: and_exp_eq_0_iff_not_bit)

lemma byte_bit_set:
  "n < 8 \<Longrightarrow> bit (w OR push_bit n 1) m \<longleftrightarrow> bit w m \<or> m = n" for w :: byte
  by (auto simp: bit_simps)

lemma grow_bytes_eq:
  "grow_bytes bs i = bs @ replicate (Suc i - length bs) 0"
proof (induction bs i rule: grow_bytes.induct)
  case (1 bs i)
  show ?case
  proof (cases "length bs \<le> i")
    case True
    then have "Suc i - length bs = Suc (i - length bs)" by simp
    with True "1.IH" show ?thesis
      by (subst grow_bytes.simps) (simp add: replicate_app_Cons_same)
  next
    case False
    then show ?thesis by (subst grow_bytes.simps) simp
  qed
qed

lemma set_skill_bit_length:
  "length (set_skill_bit bs s) = max (length bs) (Suc (skill_id s div 8))"
  by (simp add: set_skill_bit_def Let_def grow_bytes_eq skill_bit_def max_def)

lemma set_skill_bit_nth:
  assumes "i < length (set_skill_bit bs s)"
  shows "bit (set_skill_bit bs s ! i) n \<longleftrightarrow>
           (i = skill_id s div 8 \<and> n = skill_id s mod 8) \<or> (i < length bs \<and> bit (bs ! i) n)"
proof -
  let ?g = "bs @ replicate (Suc (skill_id s div 8) - length bs) 0"
  have g: "?g ! i = (if i < length bs then bs ! i else 0)"
    using assms by (auto simp: nth_append set_skill_bit_length max_def split: if_splits)
  have len: "skill_id s div 8 < length ?g" by simp
  have m: "skill_id s mod 8 < 8" by simp
  show ?thesis
  proof (cases "i = skill_id s div 8")
    case True
    then have "set_skill_bit bs s ! i = ?g ! i OR push_bit (skill_id s mod 8) 1"
      using len by (simp add: set_skill_bit_def Let_def grow_bytes_eq skill_bit_def del: length_append length_replicate)
    then show ?thesis using True g byte_bit_set [OF m] by auto
  next
    case False
    then have "set_skill_bit bs s ! i = ?g ! i"
      by (simp add: set_skill_bit_def Let_def grow_bytes_eq skill_bit_def)
    then show ?thesis using False g by auto
  qed
qed

lemma skill_active_bit:
  "skill_active bs x \<longleftrightarrow>
     skill_id x div 8 < length bs \<and> bit (bs ! (skill_id x div 8)) (skill_id x mod 8)"
proof -
  have "skill_id x mod 8 < 8" by simp
  from byte_bit_test [OF this] show ?thesis
    by (simp add: skill_active_def Let_def skill_bit_def)
qed

lemma skill_active_set_skill_bit:
  "skill_active (set_skill_bit bs s) x \<longleftrightarrow> skill_id x = skill_id s \<or> skill_active bs x"
proof -
  have eq: "skill_id x = skill_id s \<longleftrightarrow>
        skill_id x div 8 = skill_id s div 8 \<and> skill_id x mod 8 = skill_id s mod 8"
    by (metis div_mult_mod_eq)
  show ?thesis
  proof (cases "skill_id x div 8 < length (set_skill_bit bs s)")
    case True
    from set_skill_bit_nth [OF True] True show ?thesis
      unfolding skill_active_bit eq by auto
  next
    case False
    then have "\<not> skill_id x div 8 < length bs" "skill_id x div 8 \<noteq> skill_id s div 8"
      by (auto simp: set_skill_bit_length)
    with False show ?thesis unfolding skill_active_bit eq by simp
  qed
qed

lemma decode_active_set_skill_bit:
  assumes "distinct (map skill_id skills)" "s \<in> set skills" "skill_value s \<noteq> -1"
  shows "set (decode_active skills (set_skill_bit bs s)) = insert s (set (decode_active skills bs))"
proof -
  have "x = s" if "x \<in> set skills" "skill_id x = skill_id s" for x
    using assms(1,2) that by (meson distinct_map inj_onD)
  with assms(2,3) show ?thesis
    by (auto simp: decode_active_def skill_active_set_skill_bit)
qed

lemma distinct_decode_active:
  "distinct (map skill_id skills) \<Longrightarrow> distinct (decode_active skills bs)"
  by (simp add: decode_active_def distinct_map)

lemma set_skill_bit_keeps:
  assumes "i < length bs" "bit (bs ! i) n"
  shows "i < length (set_skill_bit bs s) \<and> bit (set_skill_bit bs s ! i) n"
proof -
  from assms(1) have l: "i < length (set_skill_bit bs s)" by (simp add: set_skill_bit_length)
  from set_skill_bit_nth [OF l] assms l show ?thesis by simp
qed


subsection \<open>The codec invariant of the loop\<close>

lemma codec_inv_step:
  assumes d: "\<forall>ty. distinct (map skill_id (catalog cfg ty))"
    and inv: "codec_inv cfg st a"
  shows "codec_inv cfg st (alloc_step cfg src strength mx mr a)"
proof (cases "step_added cfg src strength mx mr a")
  case False
  from alloc_step_not_added [OF False]
  have e: "skill_bytes (alloc_step cfg src strength mx mr a) = skill_bytes a"
    "active_skills (alloc_step cfg src strength mx mr a) = active_skills a"
    "added_skills (alloc_step cfg src strength mx mr a) = added_skills a"
    by blast+
  from inv show ?thesis unfolding codec_inv_def e .
next
  case True
  let ?b = "alloc_step cfg src strength mx mr a"
  from alloc_step_added [OF True] obtain ty s where
    s: "s \<in> set (available_skills (catalog cfg ty) (active_skills a ty))"
       "skill_bytes ?b = (skill_bytes a)(ty := set_skill_bit (skill_bytes a ty) s)"
       "active_skills ?b = (active_skills a)(ty := active_skills a ty @ [s])"
       "added_skills ?b = (added_skills a)(ty := added_skills a ty @ [s])"
    by blast
  from s(1) have s': "s \<in> set (catalog cfg ty)" "s \<notin> set (active_skills a ty)"
    "skill_value s \<noteq> -1"
    by (auto simp: available_skills_def)
  from d have dty: "distinct (map skill_id (catalog cfg ty))" by blast
  note dec = decode_active_set_skill_bit [OF dty s'(1,3), of "skill_bytes a ty"]
  show ?thesis
    unfolding codec_inv_def
  proof (intro allI)
    fix ty'
    from inv have i: "active_skills a ty' = active_skills st ty' @ added_skills a ty'"
      "distinct (active_skills a ty')"
      "set (active_skills a ty') = set (decode_active (catalog cfg ty') (skill_bytes a ty'))"
      "length (skill_bytes st ty') \<le> length (skill_bytes a ty')"
      "\<forall>i n. i < length (skill_bytes st ty') \<and> bit (skill_bytes st ty' ! i) n \<longrightarrow>
                  bit (skill_bytes a ty' ! i) n"
      unfolding codec_inv_def by blast+
    show "active_skills ?b ty' = active_skills st ty' @ added_skills ?b ty' \<and>
           distinct (active_skills ?b ty') \<and>
           set (active_skills ?b ty') =
             set (decode_active (catalog cfg ty') (skill_bytes ?b ty')) \<and>
           length (skill_bytes st ty') \<le> length (skill_bytes ?b ty') \<and>
           (\<forall>i n. i < length (skill_bytes st ty') \<and> bit (skill_bytes st ty' ! i) n \<longrightarrow>
                  bit (skill_bytes ?b ty' ! i) n)"
    proof (cases "ty' = ty")
      case False
      with i show ?thesis unfolding s(2,3,4) by simp
    next
      case True
      have keep: "bit (set_skill_bit (skill_bytes a ty) s ! j) n"
        if "j < length (skill_bytes st ty)" "bit (skill_bytes st ty ! j) n" for j n
      proof -
        from that i(4,5) True have "j < length (skill_bytes a ty)" "bit (skill_bytes a ty ! j) n"
          by auto
        from set_skill_bit_keeps [OF this] show ?thesis by blast
      qed
      from i(4) True have c4: "length (skill_bytes st ty) \<le>
                                 length (set_skill_bit (skill_bytes a ty) s)"
        by (simp add: set_skill_bit_length)
      from i(1) True have c1: "active_skills a ty @ [s] =
                                 active_skills st ty @ added_skills a ty @ [s]" by simp
      from i(2) True s'(2) have c2: "distinct (active_skills a ty @ [s])" by simp
      from i(3) True dec have c3: "set (active_skills a ty @ [s]) =
          set (decode_active (catalog cfg ty) (set_skill_bit (skill_bytes a ty) s))" by simp
      from c1 c2 c3 c4 keep show ?thesis
        unfolding s(2,3,4) True by (simp only: fun_upd_same) blast
    qed
  qed
qed

lemma codec_inv_loop:
  assumes d: "\<forall>ty. distinct (map skill_id (catalog cfg ty))"
    and inv: "codec_inv cfg st st"
  shows "codec_inv cfg st (allocation_loop cfg src strength mx mr st)"
proof -
  have "codec_inv cfg st ((st # loop_states cfg src strength mx mr st) ! i)"
    if "i < length (st # loop_states cfg src strength mx mr st)" for i
    by (rule loop_states_invariant [where P = "codec_inv cfg st", OF inv _ that])
       (rule codec_inv_step [OF d])
  from this [of "length (loop_states cfg src strength mx mr st)"]
  show ?thesis by (simp only: allocation_loop_last last_Cons_nth) simp
qed

lemma init_alloc_state:
  assumes "init_alloc cfg src strength intelligence bytes k = Inr (mx, mr, a0)"
  shows "skill_bytes a0 = bytes \<and>
         active_skills a0 = (\<lambda>ty. decode_active (catalog cfg ty) (bytes ty)) \<and>
         added_skills a0 = (\<lambda>ty. []) \<and> consecutive_failures a0 = 0"
  using assms by (auto simp: init_alloc_def Let_def split: sum.splits if_splits)

lemma codec_inv_init:
  assumes d: "\<forall>ty. distinct (map skill_id (catalog cfg ty))"
    and "init_alloc cfg src strength intelligence bytes k = Inr (mx, mr, a0)"
  shows "codec_inv cfg a0 a0"
  using init_alloc_state [OF assms(2)] d
  by (simp add: codec_inv_def distinct_decode_active)


subsection \<open>The sample character\<close>

lemma sample_distinct_ids: "\<forall>ty. distinct (map skill_id (catalog sample_config ty))"
proof
  fix ty show "distinct (map skill_id (catalog sample_config ty))"
    by (cases ty) (simp_all add: catalog_def sample_config_def)
qed

lemma decode_active_Nil: "decode_active skills [] = []"
  by (simp add: decode_active_def skill_active_def)

lemma sample_init_alloc:
  "init_alloc sample_config (constant_source 0) 100 90 (\<lambda>ty. []) 0 =
     Inr (1841 / 8, 190, sample_start)"
  by (simp add: init_alloc_def randint_def randint_value_def constant_source_def
      sample_config_def decode_active_Nil max_random_of_def sample_start_def Let_def
      float_of_int_small sample_products sample_sums)








subsection \<open>Locating a character\<close>






subsection \<open>Scanning behind a prefix of zero bytes\<close>








subsection \<open>A run on a truncated file\<close>

























subsection \<open>Failures and writes\<close>












section \<open>Field resolution\<close>

text \<open>
  Claim C5. For a record located at offset \<open>r\<close> whose skip count lies inside the buffer,
  the skip count is the 4-byte little-endian signed integer at \<open>r + 22\<close>, the strength
  offset is \<open>r + 26\<close> plus \<open>4 * skipCount\<close> when the skip count is positive, the
  intelligence offset is the strength offset plus 4, and the personal, commander and
  marshal bitfields start at the strength offset plus \<open>0x28C\<close>, \<open>0x29C\<close> and \<open>0x2AC\<close>.
\<close>

theorem field_resolution:
  assumes "r + 26 \<le> length buf"
  shows "\<exists>skip so.
           skip = le_signed32 (buf ! (r + 22)) (buf ! (r + 23))
                              (buf ! (r + 24)) (buf ! (r + 25)) \<and>
           so = r + 26 + (if skip > 0 then nat skip * 4 else 0) \<and>
           resolve_fields buf r =
             Inr \<lparr> skip_value = skip, strength_offset = so, intelligence_offset = so + 4,
                   personal_offset = so + 0x28C, commander_offset = so + 0x29C,
                   marshal_offset = so + 0x2AC \<rparr>"
proof -
  have "py_slice buf (r + 22) (r + 22 + 4) =
          [buf ! (r + 22), buf ! (r + 23), buf ! (r + 24), buf ! (r + 25)]"
    using assms py_slice_four [of "r + 22" buf] by (simp add: add.commute add.left_commute)
  then show ?thesis
    by (simp add: resolve_fields_def Let_def unpack_le_i32_four)
qed

theorem field_resolution_witness:
  "1 + 26 \<le> length sample_record \<and>
   resolve_fields sample_record 1 =
     Inr \<lparr> skip_value = 1, strength_offset = 31, intelligence_offset = 35,
           personal_offset = 683, commander_offset = 699, marshal_offset = 715 \<rparr>"
proof -
  have h: "1 + 26 \<le> length sample_record" by (simp add: sample_record_def)
  from field_resolution [OF h] show ?thesis
    by (simp add: sample_record_def le_signed32_def)
qed

section \<open>Signature scan\<close>

text \<open>
  Claim C6. For every character id and every search window \<open>[lo, hi)\<close>, the scanner
  returns position \<open>i\<close> exactly when \<open>i\<close> lies in the window, the 22-byte template with
  the two low id bytes holds at \<open>i\<close>, and it holds at no earlier position of the window.
\<close>

theorem signature_scan_first_match:
  "strict_scan buf (char_id_bytes n) lo hi = Some i \<longleftrightarrow>
     lo \<le> i \<and> i < hi \<and> signature_template buf (char_id_bytes n) i \<and>
     (\<forall>j. lo \<le> j \<and> j < i \<longrightarrow> \<not> signature_template buf (char_id_bytes n) j)"
  by (simp add: strict_scan_def first_in_range_Some_iff strict_match_template)

theorem signature_scan_first_match_witness:
  "strict_scan sample_record (char_id_bytes 2) 0 3 = Some 1 \<and>
   signature_template sample_record (char_id_bytes 2) 1 \<and>
   \<not> signature_template sample_record (char_id_bytes 2) 0"
proof -
  have s: "strict_scan sample_record (char_id_bytes 2) 0 3 = Some 1"
    by (simp add: strict_scan_def first_in_range_def strict_match_def sample_record_def
        upt_conv_Cons char_id_bytes_def py_slice_def mark5_def mark9_def)
  from s signature_scan_first_match [of sample_record 2 0 3 1] show ?thesis
    by simp
qed

section \<open>Length of the extracted bitfields\<close>

text \<open>
  Claim C2 says that \<open>ceil((max id + 1) / 8)\<close> bytes are extracted for a category. The
  source extracts \<open>(max id + 7) // 8\<close> bytes, one byte less whenever the largest id is a
  multiple of 8. For a category whose only skill has id 8 it extracts one byte where two
  are needed: the skill's bit, bit 0 of byte 1, is set in the two bytes of the save file
  but is not decoded from the extracted slice.
\<close>

theorem bytes_needed_short_by_one:
  "bytes_needed [skill8] = Inr 1 \<and> spec_byte_length [skill8] = 2 \<and>
   skill_active [0x00, 0x01] skill8 \<and>
   decode_active [skill8] (py_slice [0x00, 0x01] 0 (0 + 1)) = []"
  by (simp add: bytes_needed_def spec_byte_length_def skill8_def skill_active_def
      decode_active_def py_slice_def skill_bit_def)

section \<open>Range of the random draw\<close>






section \<open>Budget check\<close>






section \<open>Termination of the allocation loop\<close>

text \<open>
  Claim C8. The allocation loop is a total function. Its result is the last of the
  states it passes through; in the result the failure counter has reached
  \<open>reroll_limit\<close> or all three catalogs are fully active, and in no earlier state of the
  run is either of the two the case. Started with a non-negative counter, the loop runs
  at most \<open>remaining * (k + 1) + k\<close> iterations for \<open>reroll_limit = k\<close>, and among any
  \<open>k + 1\<close> successive iterations one adds a skill: at most \<open>k\<close> iterations in a row fail.
\<close>

theorem allocation_loop_terminates:
  "allocation_loop cfg src strength mx mr st =
     last (st # loop_states cfg src strength mx mr st) \<and>
   (\<not> consecutive_failures (allocation_loop cfg src strength mx mr st) < reroll_limit cfg \<or>
    all_skills_added cfg (allocation_loop cfg src strength mx mr st)) \<and>
   (\<forall>i. Suc i < length (loop_states cfg src strength mx mr st) \<longrightarrow>
      consecutive_failures (loop_states cfg src strength mx mr st ! i) < reroll_limit cfg \<and>
      \<not> all_skills_added cfg (loop_states cfg src strength mx mr st ! i)) \<and>
   (0 \<le> consecutive_failures st \<longrightarrow>
      length (loop_states cfg src strength mx mr st) \<le>
        remaining cfg st * (nat (reroll_limit cfg) + 1) +
        (nat (reroll_limit cfg) - nat (consecutive_failures st))) \<and>
   (0 \<le> consecutive_failures st \<longrightarrow>
      (\<forall>i. i + nat (reroll_limit cfg) < length (loop_states cfg src strength mx mr st) \<longrightarrow>
         (\<exists>j \<le> nat (reroll_limit cfg).
            step_added cfg src strength mx mr
              ((st # loop_states cfg src strength mx mr st) ! (i + j)))))"
proof -
  let ?L = "loop_states cfg src strength mx mr st"
  let ?K = "nat (reroll_limit cfg)"
  have a: "\<forall>i. Suc i < length ?L \<longrightarrow>
      consecutive_failures (?L ! i) < reroll_limit cfg \<and> \<not> all_skills_added cfg (?L ! i)"
  proof (intro allI impI)
    fix i assume "Suc i < length ?L"
    from loop_states_nth [OF this] show
      "consecutive_failures (?L ! i) < reroll_limit cfg \<and> \<not> all_skills_added cfg (?L ! i)"
      by simp
  qed
  have b: "\<exists>j \<le> ?K. step_added cfg src strength mx mr ((st # ?L) ! (i + j))"
    if nn: "0 \<le> consecutive_failures st" and len: "i + ?K < length ?L" for i
  proof (rule ccontr)
    assume "\<not> (\<exists>j \<le> ?K. step_added cfg src strength mx mr ((st # ?L) ! (i + j)))"
    then have "\<forall>m < ?K. \<not> step_added cfg src strength mx mr ((st # ?L) ! (i + m))" by auto
    from failed_run_counts [OF nn len this]
    have "int ?K \<le> consecutive_failures ((st # ?L) ! (i + ?K))" .
    moreover from loop_states_nth [OF len]
    have "consecutive_failures ((st # ?L) ! (i + ?K)) < reroll_limit cfg" by blast
    ultimately show False by arith
  qed
  from a b show ?thesis
    using allocation_loop_last [of cfg src strength mx mr st]
      loop_stop_condition [of cfg src strength mx mr st]
      loop_states_length_bound [of st cfg src strength mx mr]
    by blast
qed

theorem allocation_loop_terminates_witness:
  "allocation_loop sample_config (constant_source 0) 100 263 190 sample_alloc =
     last (sample_alloc #
           loop_states sample_config (constant_source 0) 100 263 190 sample_alloc) \<and>
   length (loop_states sample_config (constant_source 0) 100 263 190 sample_alloc) \<le> 15"
proof -
  have c: "0 \<le> consecutive_failures sample_alloc" "nat (consecutive_failures sample_alloc) = 0"
    "nat (reroll_limit sample_config) = 3"
    by (simp_all add: sample_alloc_def sample_config_def)
  have r: "remaining sample_config sample_alloc = 3"
    by (simp add: remaining_def available_skills_def catalog_def sample_alloc_def
        sample_config_def skill0_def skill3_def skill8_def)
  from allocation_loop_terminates [of sample_config "constant_source 0" 100 263 190 sample_alloc] c(1)
  have "allocation_loop sample_config (constant_source 0) 100 263 190 sample_alloc =
          last (sample_alloc #
                loop_states sample_config (constant_source 0) 100 263 190 sample_alloc)"
    and "length (loop_states sample_config (constant_source 0) 100 263 190 sample_alloc) \<le>
         remaining sample_config sample_alloc * (nat (reroll_limit sample_config) + 1) +
         (nat (reroll_limit sample_config) - nat (consecutive_failures sample_alloc))"
    by blast+
  then show ?thesis unfolding r c(2,3) by simp
qed

section \<open>Encode and decode\<close>

text \<open>
  Claim C9. Setting a skill's bit sets bit \<open>id mod 8\<close> of byte \<open>id div 8\<close>, pads the byte
  array with zero bytes up to that byte and leaves every other bit as it was. For a
  catalog whose ids are distinct within each category, and for every character and
  category, decoding the skill bytes after the allocation loop yields exactly the
  skills decoded from the extracted bytes together with the skills added by the loop;
  neither the decoded list nor the active list has a duplicate, and every bit set in
  the extracted bytes is still set.
\<close>

theorem encode_decode_round_trip:
  assumes d: "\<forall>ty. distinct (map skill_id (catalog cfg ty))"
    and i: "init_alloc cfg src strength intelligence bytes k = Inr (mx, mr, a0)"
  shows "set (decode_active (catalog cfg ty)
                (skill_bytes (allocation_loop cfg src strength mx mr a0) ty)) =
           set (decode_active (catalog cfg ty) (bytes ty)) \<union>
           set (added_skills (allocation_loop cfg src strength mx mr a0) ty) \<and>
         distinct (decode_active (catalog cfg ty)
                (skill_bytes (allocation_loop cfg src strength mx mr a0) ty)) \<and>
         active_skills (allocation_loop cfg src strength mx mr a0) ty =
           decode_active (catalog cfg ty) (bytes ty) @
           added_skills (allocation_loop cfg src strength mx mr a0) ty \<and>
         distinct (active_skills (allocation_loop cfg src strength mx mr a0) ty) \<and>
         length (bytes ty) \<le> length (skill_bytes (allocation_loop cfg src strength mx mr a0) ty) \<and>
         (\<forall>j n. j < length (bytes ty) \<and> bit (bytes ty ! j) n \<longrightarrow>
                bit (skill_bytes (allocation_loop cfg src strength mx mr a0) ty ! j) n) \<and>
         (\<forall>bs s. length (set_skill_bit bs s) = max (length bs) (Suc (skill_id s div 8)) \<and>
            (\<forall>j n. j < length (set_skill_bit bs s) \<longrightarrow>
               (bit (set_skill_bit bs s ! j) n \<longleftrightarrow>
                  (j = skill_id s div 8 \<and> n = skill_id s mod 8) \<or>
                  (j < length bs \<and> bit (bs ! j) n))))"
proof -
  let ?fin = "allocation_loop cfg src strength mx mr a0"
  note a0 = init_alloc_state [OF i]
  from codec_inv_loop [OF d codec_inv_init [OF d i], of src strength mx mr]
  have inv: "active_skills ?fin ty = active_skills a0 ty @ added_skills ?fin ty"
      "distinct (active_skills ?fin ty)"
      "set (active_skills ?fin ty) = set (decode_active (catalog cfg ty) (skill_bytes ?fin ty))"
      "length (skill_bytes a0 ty) \<le> length (skill_bytes ?fin ty)"
      "\<forall>i n. i < length (skill_bytes a0 ty) \<and> bit (skill_bytes a0 ty ! i) n \<longrightarrow>
                  bit (skill_bytes ?fin ty ! i) n"
    unfolding codec_inv_def by blast+
  from d have "distinct (decode_active (catalog cfg ty) (skill_bytes ?fin ty))"
    by (simp add: distinct_decode_active)
  moreover from inv(1,3) a0
  have "set (decode_active (catalog cfg ty) (skill_bytes ?fin ty)) =
           set (decode_active (catalog cfg ty) (bytes ty)) \<union> set (added_skills ?fin ty)"
    by (metis set_append)
  moreover from inv(1) a0
  have "active_skills ?fin ty = decode_active (catalog cfg ty) (bytes ty) @ added_skills ?fin ty"
    by simp
  moreover from inv(4,5) a0
  have "length (bytes ty) \<le> length (skill_bytes ?fin ty)"
    "\<forall>j n. j < length (bytes ty) \<and> bit (bytes ty ! j) n \<longrightarrow> bit (skill_bytes ?fin ty ! j) n"
    by simp_all
  ultimately show ?thesis
    using inv(2) set_skill_bit_length set_skill_bit_nth by blast
qed

theorem encode_decode_round_trip_witness:
  "(\<forall>ty. distinct (map skill_id (catalog sample_config ty))) \<and>
   init_alloc sample_config (constant_source 0) 100 90 (\<lambda>ty. []) 0 =
     Inr (1841 / 8, 190, sample_start) \<and>
   set (decode_active (catalog sample_config Personal)
          (skill_bytes (allocation_loop sample_config (constant_source 0) 100 (1841 / 8) 190
                          sample_start) Personal)) =
     set (decode_active (catalog sample_config Personal) []) \<union>
     set (added_skills (allocation_loop sample_config (constant_source 0) 100 (1841 / 8) 190
                          sample_start) Personal)"
  using encode_decode_round_trip [OF sample_distinct_ids sample_init_alloc, of Personal]
    sample_distinct_ids sample_init_alloc
  by blast

section \<open>Bounded search window\<close>




section \<open>Fatal errors\<close>






end
